theory Spec2Isabelle
  imports Main
begin

section \<open>The request/response exchange and handlers\<close>

text \<open>
  A Go handler \<^verbatim>\<open>func(w http.ResponseWriter, r *http.Request)\<close> reads the request and
  mutates the response writer, the request and whatever its closure captured. The model
  threads one record through the chain: the request's method, the response as it stands
  (status line, header, body) and \<open>called\<close>, the slice the tests' closures append to.
  A runtime fault (a Go panic) is a value of its own type; a handler returns either the
  fault or the updated exchange.
\<close>

datatype panic = NilFuncCall | Raised string

record exchange =
  reqMethod :: string
  wStatus :: "nat option"
  wHeader :: "string \<rightharpoonup> string"
  wBody :: string
  called :: "string list"

type_synonym handler_fn = "exchange \<Rightarrow> panic + exchange"

text \<open>\<^verbatim>\<open>http.HandlerFunc\<close> is a func type: its zero value \<^verbatim>\<open>nil\<close> is \<open>None\<close>.\<close>

type_synonym HandlerFunc = "handler_fn option"

text \<open>\<^verbatim>\<open>type Middleware func(handlerFunc http.HandlerFunc) http.HandlerFunc\<close>, \<^verbatim>\<open>nil\<close> being \<open>None\<close>.\<close>

type_synonym Middleware = "(HandlerFunc \<Rightarrow> HandlerFunc) option"

text \<open>Calling a func value: \<^verbatim>\<open>h(w, r)\<close> on a nil func is a runtime fault.\<close>

definition call :: "HandlerFunc \<Rightarrow> exchange \<Rightarrow> panic + exchange" where
  "call h x = (case h of None \<Rightarrow> Inl NilFuncCall | Some f \<Rightarrow> f x)"

subsection \<open>The response writer\<close>

text \<open>
  Modelled from the spec: the response-writing capability and \<^verbatim>\<open>http.Error\<close> belong to
  net/http, which the repository imports and does not contain. The status line is written
  once (\<open>wStatus\<close> is \<open>None\<close> until then); a body write before any status writes 200; a
  header set after the status line no longer reaches the response. \<^verbatim>\<open>http.Error\<close>
  writes a plain-text error: the content type, the status, and the message followed by
  one newline.
\<close>

definition Header_Set :: "string \<Rightarrow> string \<Rightarrow> exchange \<Rightarrow> exchange" where
  "Header_Set k v x = (if wStatus x = None then x\<lparr>wHeader := (wHeader x)(k \<mapsto> v)\<rparr> else x)"

definition Header_Del :: "string \<Rightarrow> exchange \<Rightarrow> exchange" where
  "Header_Del k x = (if wStatus x = None then x\<lparr>wHeader := (wHeader x)(k := None)\<rparr> else x)"

definition WriteHeader :: "nat \<Rightarrow> exchange \<Rightarrow> exchange" where
  "WriteHeader c x = (if wStatus x = None then x\<lparr>wStatus := Some c\<rparr> else x)"

definition Write :: "string \<Rightarrow> exchange \<Rightarrow> exchange" where
  "Write s x = (let y = WriteHeader 200 x in y\<lparr>wBody := wBody y @ s\<rparr>)"

definition StatusMethodNotAllowed :: nat where
  "StatusMethodNotAllowed = 405"

definition http_Error :: "string \<Rightarrow> nat \<Rightarrow> exchange \<Rightarrow> exchange" where
  "http_Error msg c x =
     Write (msg @ [CHR 0x0A])
       (WriteHeader c
         (Header_Set ''X-Content-Type-Options'' ''nosniff''
           (Header_Set ''Content-Type'' ''text/plain; charset=utf-8''
             (Header_Del ''Content-Length'' x))))"

section \<open>The router\<close>

type_synonym methodHandlerMap = "string \<rightharpoonup> HandlerFunc"

text \<open>
  Modelled from the spec: the multiplexer (\<^verbatim>\<open>*http.ServeMux\<close>, net/http) is an external
  collaborator with one operation, registering a callback for a pattern. The only
  callback this package ever registers is the closure of \<^verbatim>\<open>handle\<close>, which captures the
  router and the path; the model of the multiplexer is therefore the list of patterns for
  which that closure has been installed, one entry per call of \<^verbatim>\<open>HandleFunc\<close>.
\<close>

type_synonym ServeMux = "string list"

definition NewServeMux :: ServeMux where
  "NewServeMux = []"

definition HandleFunc :: "ServeMux \<Rightarrow> string \<Rightarrow> ServeMux" where
  "HandleFunc m pattern = m @ [pattern]"

record Application =
  mux :: ServeMux
  mws :: "Middleware list"
  pathMethodHandlerMap :: "string \<rightharpoonup> methodHandlerMap"

definition NewApplication :: "ServeMux \<Rightarrow> Application" where
  "NewApplication m = \<lparr>mux = m, mws = [], pathMethodHandlerMap = Map.empty\<rparr>"

text \<open>\<^verbatim>\<open>a.mws = append(a.mws, mws...); return a\<close>: the result is the receiver, updated.\<close>

definition WithGlobalMiddlewares :: "Middleware list \<Rightarrow> Application \<Rightarrow> Application" where
  "WithGlobalMiddlewares ms a = a\<lparr>mws := mws a @ ms\<rparr>"

subsection \<open>Middleware composition\<close>

text \<open>
  \<^verbatim>\<open>for i := len(mws) - 1; i >= 0; i-- { handler = mws[i](handler) }\<close>.
  The counter of the model is \<open>i + 1\<close>, so that the loop ends at \<open>0\<close>; calling a nil
  middleware is a runtime fault.
\<close>

fun applyMiddleware_loop :: "nat \<Rightarrow> Middleware list \<Rightarrow> HandlerFunc \<Rightarrow> panic + HandlerFunc" where
  "applyMiddleware_loop 0 ms handler = Inr handler"
| "applyMiddleware_loop (Suc i) ms handler =
     (case ms ! i of
        None \<Rightarrow> Inl NilFuncCall
      | Some mw \<Rightarrow> applyMiddleware_loop i ms (mw handler))"

definition applyMiddleware :: "HandlerFunc \<Rightarrow> Middleware list \<Rightarrow> panic + HandlerFunc" where
  "applyMiddleware handler ms = applyMiddleware_loop (length ms) ms handler"

text \<open>First the route-specific middleware, then the global middleware around the result.\<close>

definition middleware :: "Application \<Rightarrow> HandlerFunc \<Rightarrow> Middleware list \<Rightarrow> panic + HandlerFunc" where
  "middleware a handler ms =
     (case applyMiddleware handler ms of
        Inl e \<Rightarrow> Inl e
      | Inr result \<Rightarrow> applyMiddleware result (mws a))"

subsection \<open>Registration\<close>

text \<open>
  Reading a Go map at a missing key gives the zero value, here the nil method table,
  which reads as an empty table.
\<close>

definition pMH :: "Application \<Rightarrow> string \<Rightarrow> methodHandlerMap" where
  "pMH a path = (case pathMethodHandlerMap a path of None \<Rightarrow> Map.empty | Some t \<Rightarrow> t)"

text \<open>
  \<^verbatim>\<open>handle\<close>: on the first registration for \<open>path\<close> the table is made and the dispatch
  closure installed; then the handler is composed and stored under \<open>method\<close>. The receiver
  is a pointer, so what the call has done to the router stays done when composing faults
  (a nil middleware): the result is then the fault together with the router as the call
  left it, with the table made and the closure installed but nothing stored.
\<close>

definition handle ::
  "string \<Rightarrow> string \<Rightarrow> HandlerFunc \<Rightarrow> Middleware list \<Rightarrow> Application \<Rightarrow> (panic \<times> Application) + Application" where
  "handle method path handler ms a =
     (let a1 = (if pathMethodHandlerMap a path = None
                then a\<lparr>pathMethodHandlerMap := (pathMethodHandlerMap a)(path \<mapsto> Map.empty),
                       mux := HandleFunc (mux a) path\<rparr>
                else a)
      in case middleware a1 handler ms of
           Inl e \<Rightarrow> Inl (e, a1)
         | Inr h \<Rightarrow>
             Inr (a1\<lparr>pathMethodHandlerMap :=
                       (pathMethodHandlerMap a1)(path \<mapsto> (pMH a1 path)(method \<mapsto> h))\<rparr>))"

definition MethodGet :: string where "MethodGet = ''GET''"
definition MethodPost :: string where "MethodPost = ''POST''"
definition MethodPut :: string where "MethodPut = ''PUT''"
definition MethodPatch :: string where "MethodPatch = ''PATCH''"
definition MethodDelete :: string where "MethodDelete = ''DELETE''"

definition Post :: "string \<Rightarrow> HandlerFunc \<Rightarrow> Middleware list \<Rightarrow> Application \<Rightarrow> (panic \<times> Application) + Application" where
  "Post path handler ms a = handle MethodPost path handler ms a"

definition Get :: "string \<Rightarrow> HandlerFunc \<Rightarrow> Middleware list \<Rightarrow> Application \<Rightarrow> (panic \<times> Application) + Application" where
  "Get path handler ms a = handle MethodGet path handler ms a"

definition Put :: "string \<Rightarrow> HandlerFunc \<Rightarrow> Middleware list \<Rightarrow> Application \<Rightarrow> (panic \<times> Application) + Application" where
  "Put path handler ms a = handle MethodPut path handler ms a"

definition Patch :: "string \<Rightarrow> HandlerFunc \<Rightarrow> Middleware list \<Rightarrow> Application \<Rightarrow> (panic \<times> Application) + Application" where
  "Patch path handler ms a = handle MethodPatch path handler ms a"

definition Delete :: "string \<Rightarrow> HandlerFunc \<Rightarrow> Middleware list \<Rightarrow> Application \<Rightarrow> (panic \<times> Application) + Application" where
  "Delete path handler ms a = handle MethodDelete path handler ms a"

subsection \<open>Allowed methods and dispatch\<close>

text \<open>
  \<^verbatim>\<open>for m := range a.pathMethodHandlerMap[path]\<close> visits every key of the table once, in
  an order the Go runtime chooses anew at each loop. The order of one execution is the
  list \<open>ks\<close>; \<open>range_order t ks\<close> says that \<open>ks\<close> is a possible one for the table \<open>t\<close>.
\<close>

definition range_order :: "('k \<rightharpoonup> 'v) \<Rightarrow> 'k list \<Rightarrow> bool" where
  "range_order t ks \<longleftrightarrow> distinct ks \<and> set ks = dom t"

fun allowedMethods_loop :: "string list \<Rightarrow> string \<Rightarrow> string" where
  "allowedMethods_loop [] methods = methods"
| "allowedMethods_loop (m # ks) methods =
     allowedMethods_loop ks ((if methods \<noteq> '''' then methods @ '', '' else methods) @ m)"

text \<open>\<open>ks\<close> is the order in which the loop visits the keys of the table of \<open>path\<close>.\<close>

definition allowedMethods :: "Application \<Rightarrow> string \<Rightarrow> string list \<Rightarrow> string" where
  "allowedMethods a path ks = allowedMethods_loop ks ''''"

text \<open>
  The closure installed for \<open>path\<close>. It reads the router as it is when the request
  arrives; \<open>ks\<close> is the visiting order of the loop in \<^verbatim>\<open>allowedMethods\<close>, should the 405
  branch run.
\<close>

definition dispatch :: "Application \<Rightarrow> string \<Rightarrow> string list \<Rightarrow> exchange \<Rightarrow> panic + exchange" where
  "dispatch a path ks x =
     (case pMH a path (reqMethod x) of
        Some h \<Rightarrow> call h x
      | None \<Rightarrow>
          Inr (http_Error ''Method Not Allowed'' StatusMethodNotAllowed
                 (Header_Set ''Allow'' (allowedMethods a path ks) x)))"

text \<open>
  Modelled from the spec: serving a request that the multiplexer has matched to
  \<open>pattern\<close>. The multiplexer invokes the callback installed for the pattern; with none
  installed the request never reaches this package and gets the multiplexer's own
  answer (the tests expect status 404 and the body \<^verbatim>\<open>404 page not found\<close>).
\<close>

definition ServeHTTP :: "Application \<Rightarrow> string \<Rightarrow> string list \<Rightarrow> exchange \<Rightarrow> panic + exchange" where
  "ServeHTTP a pattern ks x =
     (if pattern \<in> set (mux a) then dispatch a pattern ks x
      else Inr (http_Error ''404 page not found'' 404 x))"

section \<open>Building a router through the public API\<close>

datatype api_call =
    CallPost string HandlerFunc "Middleware list"
  | CallGet string HandlerFunc "Middleware list"
  | CallPut string HandlerFunc "Middleware list"
  | CallPatch string HandlerFunc "Middleware list"
  | CallDelete string HandlerFunc "Middleware list"
  | CallWithGlobalMiddlewares "Middleware list"

fun api_step :: "api_call \<Rightarrow> Application \<Rightarrow> (panic \<times> Application) + Application" where
  "api_step (CallPost p h ms) a = Post p h ms a"
| "api_step (CallGet p h ms) a = Get p h ms a"
| "api_step (CallPut p h ms) a = Put p h ms a"
| "api_step (CallPatch p h ms) a = Patch p h ms a"
| "api_step (CallDelete p h ms) a = Delete p h ms a"
| "api_step (CallWithGlobalMiddlewares ms) a = Inr (WithGlobalMiddlewares ms a)"

text \<open>
  A program's calls in sequence. A fault the program does not recover from ends it: the
  result is then the fault, with the router as the faulting call left it.
\<close>

fun run :: "api_call list \<Rightarrow> Application \<Rightarrow> (panic \<times> Application) + Application" where
  "run [] a = Inr a"
| "run (c # cs) a = (case api_step c a of Inl f \<Rightarrow> Inl f | Inr a' \<Rightarrow> run cs a')"

text \<open>
  A program that recovers from every fault (Go's \<^verbatim>\<open>recover\<close>, as the test of the nil
  handler does) and goes on with the router as the faulting call left it.
\<close>

fun recover :: "(panic \<times> Application) + Application \<Rightarrow> Application" where
  "recover (Inl (e, a)) = a"
| "recover (Inr a) = a"

fun run_recovering :: "api_call list \<Rightarrow> Application \<Rightarrow> Application" where
  "run_recovering [] a = a"
| "run_recovering (c # cs) a = run_recovering cs (recover (api_step c a))"

text \<open>The calls of such a program that returned.\<close>

fun returned :: "api_call list \<Rightarrow> Application \<Rightarrow> api_call list" where
  "returned [] a = []"
| "returned (c # cs) a =
     (case api_step c a of
        Inl (e, a') \<Rightarrow> returned cs a'
      | Inr a' \<Rightarrow> c # returned cs a')"

text \<open>
  The (method, path) pair a registration call names, and the methods of the registration
  calls of a program for a path.
\<close>

fun route_of :: "api_call \<Rightarrow> (string \<times> string) option" where
  "route_of (CallPost p h ms) = Some (MethodPost, p)"
| "route_of (CallGet p h ms) = Some (MethodGet, p)"
| "route_of (CallPut p h ms) = Some (MethodPut, p)"
| "route_of (CallPatch p h ms) = Some (MethodPatch, p)"
| "route_of (CallDelete p h ms) = Some (MethodDelete, p)"
| "route_of (CallWithGlobalMiddlewares ms) = None"

definition registered :: "api_call list \<Rightarrow> string \<Rightarrow> string list" where
  "registered cs path = [m. (m, p) \<leftarrow> List.map_filter route_of cs, p = path]"

section \<open>What the specification speaks of\<close>

text \<open>
  Nesting every middleware of a list around a terminal handler, outermost first: the
  head of the list receives the request first and decides whether the rest runs.
\<close>

fun nest :: "(HandlerFunc \<Rightarrow> HandlerFunc) list \<Rightarrow> HandlerFunc \<Rightarrow> HandlerFunc" where
  "nest [] h = h"
| "nest (f # fs) h = f (nest fs h)"

text \<open>Method names joined by a comma and a space, with no trailing separator.\<close>

fun join_comma_space :: "string list \<Rightarrow> string" where
  "join_comma_space [] = ''''"
| "join_comma_space [m] = m"
| "join_comma_space (m # k # ks) = m @ '', '' @ join_comma_space (k # ks)"

text \<open>Two strings that differ at most in the case of their ASCII letters.\<close>

definition ascii_upper :: "char \<Rightarrow> char" where
  "ascii_upper c =
     (case map_of (zip ''abcdefghijklmnopqrstuvwxyz'' ''ABCDEFGHIJKLMNOPQRSTUVWXYZ'') c of
        None \<Rightarrow> c
      | Some u \<Rightarrow> u)"

definition same_up_to_case :: "string \<Rightarrow> string \<Rightarrow> bool" where
  "same_up_to_case s t \<longleftrightarrow> map ascii_upper s = map ascii_upper t"

subsection \<open>The closures of the test suite\<close>

text \<open>
  \<^verbatim>\<open>mw1\<close>, \<^verbatim>\<open>mw2\<close>, \<^verbatim>\<open>globalMw\<close>: append a name to \<open>called\<close>, then call \<open>next\<close>.
  \<^verbatim>\<open>interruptMw\<close>: append a name, write status 401, do not call \<open>next\<close>.
  The terminal handlers of the same tests append a name and return.
\<close>

definition logging_mw :: "string \<Rightarrow> HandlerFunc \<Rightarrow> HandlerFunc" where
  "logging_mw name next = Some (\<lambda>x. call next (x\<lparr>called := called x @ [name]\<rparr>))"

definition interrupt_mw :: "string \<Rightarrow> HandlerFunc \<Rightarrow> HandlerFunc" where
  "interrupt_mw name next = Some (\<lambda>x. Inr (WriteHeader 401 (x\<lparr>called := called x @ [name]\<rparr>)))"

definition logging_handler :: "string \<Rightarrow> HandlerFunc" where
  "logging_handler name = Some (\<lambda>x. Inr (x\<lparr>called := called x @ [name]\<rparr>))"

datatype probe = Pass string | Stop string

fun probe_mw :: "probe \<Rightarrow> HandlerFunc \<Rightarrow> HandlerFunc" where
  "probe_mw (Pass name) = logging_mw name"
| "probe_mw (Stop name) = interrupt_mw name"

text \<open>
  The names a chain of probes around a logging handler is expected to append: each
  probe's name in list order up to and including the first that stops, and the
  handler's name last if none stops.
\<close>

fun expected_trace :: "probe list \<Rightarrow> string \<Rightarrow> string list" where
  "expected_trace [] h = [h]"
| "expected_trace (Pass name # ps) h = name # expected_trace ps h"
| "expected_trace (Stop name # ps) h = [name]"

text \<open>\<^verbatim>\<open>stringHandler\<close> of the tests: write the body (the write does not fail in the model).\<close>

definition stringHandler :: "string \<Rightarrow> HandlerFunc" where
  "stringHandler b = Some (\<lambda>x. Inr (Write b x))"

text \<open>
  The exchange at the start of a request, as the tests set it up with
  \<^verbatim>\<open>httptest.NewRequest\<close> and \<^verbatim>\<open>httptest.NewRecorder\<close>: nothing written yet.
\<close>

definition fresh :: "string \<Rightarrow> exchange" where
  "fresh m = \<lparr>reqMethod = m, wStatus = None, wHeader = Map.empty, wBody = '''', called = []\<rparr>"

text \<open>
  The invariant that links the state of a router to the calls that built it: \<open>tried\<close>
  are the calls made, \<open>stored\<close> those of them that returned.
\<close>

definition reached :: "api_call list \<Rightarrow> api_call list \<Rightarrow> Application \<Rightarrow> bool" where
  "reached tried stored a \<longleftrightarrow>
     set (mux a) = dom (pathMethodHandlerMap a) \<and> distinct (mux a) \<and>
     (\<forall>p. dom (pMH a p) = set (registered stored p)) \<and>
     (\<forall>p. p \<in> dom (pathMethodHandlerMap a) \<longleftrightarrow> registered tried p \<noteq> [])"

text \<open>The same when every call returned.\<close>

definition built :: "api_call list \<Rightarrow> Application \<Rightarrow> bool" where
  "built cs a \<longleftrightarrow>
     set (mux a) = dom (pathMethodHandlerMap a) \<and> distinct (mux a) \<and>
     (\<forall>p. dom (pMH a p) = set (registered cs p)) \<and>
     (\<forall>p. p \<in> dom (pathMethodHandlerMap a) \<longleftrightarrow> registered cs p \<noteq> [])"

text \<open>
  Reading a header value back: the names it lists, cut at every comma followed by a
  space; the empty value lists nothing.
\<close>

fun split_comma_space :: "string \<Rightarrow> string \<Rightarrow> string list" where
  "split_comma_space cur [] = [cur]"
| "split_comma_space cur (c # s) =
     (if c = CHR '','' \<and> s \<noteq> [] \<and> hd s = CHR '' ''
      then cur # split_comma_space [] (tl s)
      else split_comma_space (cur @ [c]) s)"

definition listed :: "string \<Rightarrow> string list" where
  "listed s = (if s = [] then [] else split_comma_space [] s)"

section \<open>Composition\<close>

lemma nest_snoc: "nest (fs @ [f]) h = nest fs (f h)"
  by (induction fs) simp_all

lemma nest_append: "nest (fs @ gs) h = nest fs (nest gs h)"
  by (induction fs) simp_all

lemma applyMiddleware_loop_Some:
  "i \<le> length fs \<Longrightarrow>
   applyMiddleware_loop i (map Some fs) h = Inr (nest (take i fs) h)"
proof (induction i arbitrary: h)
  case 0
  then show ?case by simp
next
  case (Suc i)
  then show ?case
    by (simp add: take_Suc_conv_app_nth nest_snoc)
qed

lemma applyMiddleware_Some:
  "applyMiddleware h (map Some fs) = Inr (nest fs h)"
  by (simp add: applyMiddleware_def applyMiddleware_loop_Some)

lemma applyMiddleware_loop_nil:
  "i \<le> length ms \<Longrightarrow> None \<in> set (take i ms) \<Longrightarrow> applyMiddleware_loop i ms h = Inl NilFuncCall"
proof (induction i arbitrary: h)
  case 0
  then show ?case by simp
next
  case (Suc i)
  then show ?case
    by (auto simp: take_Suc_conv_app_nth split: option.splits)
qed

lemma applyMiddleware_nil:
  "None \<in> set ms \<Longrightarrow> applyMiddleware h ms = Inl NilFuncCall"
  by (simp add: applyMiddleware_def applyMiddleware_loop_nil)

lemma all_Some_map: "None \<notin> set ms \<Longrightarrow> ms = map Some (map the ms)"
  by (induction ms) auto

lemma middleware_Some:
  "mws a = map Some gs \<Longrightarrow> middleware a h (map Some rs) = Inr (nest (gs @ rs) h)"
  by (simp add: middleware_def applyMiddleware_Some nest_append)

lemma middleware_nil:
  assumes "None \<in> set ms \<or> None \<in> set (mws a)"
  shows "middleware a h ms = Inl NilFuncCall"
proof (cases "None \<in> set ms")
  case True
  then show ?thesis by (simp add: middleware_def applyMiddleware_nil)
next
  case False
  with assms have g: "None \<in> set (mws a)" by simp
  from False have "ms = map Some (map the ms)" by (rule all_Some_map)
  then obtain fs where "ms = map Some fs" ..
  with g show ?thesis
    by (simp add: middleware_def applyMiddleware_Some applyMiddleware_nil)
qed

section \<open>Registration\<close>

lemma handle_Some:
  assumes "mws a = map Some gs"
  shows "handle m p h (map Some rs) a =
    Inr (a\<lparr>pathMethodHandlerMap := (pathMethodHandlerMap a)(p \<mapsto> (pMH a p)(m \<mapsto> nest (gs @ rs) h)),
           mux := (if pathMethodHandlerMap a p = None then HandleFunc (mux a) p else mux a)\<rparr>)"
  using assms by (simp add: handle_def Let_def middleware_Some pMH_def)

lemma handle_nil:
  assumes "None \<in> set ms \<or> None \<in> set (mws a)"
  shows "handle m p h ms a =
    Inl (NilFuncCall,
         if pathMethodHandlerMap a p = None
         then a\<lparr>pathMethodHandlerMap := (pathMethodHandlerMap a)(p \<mapsto> Map.empty),
                mux := HandleFunc (mux a) p\<rparr>
         else a)"
proof -
  let ?a1 = "if pathMethodHandlerMap a p = None
         then a\<lparr>pathMethodHandlerMap := (pathMethodHandlerMap a)(p \<mapsto> Map.empty),
                mux := HandleFunc (mux a) p\<rparr>
         else a"
  from assms have "None \<in> set ms \<or> None \<in> set (mws ?a1)" by simp
  then have "middleware ?a1 h ms = Inl NilFuncCall" by (rule middleware_nil)
  then show ?thesis by (simp add: handle_def Let_def)
qed

lemma handle_Inr_iff:
  "(\<exists>a'. handle m p h ms a = Inr a') \<longleftrightarrow> None \<notin> set ms \<and> None \<notin> set (mws a)"
proof
  assume "\<exists>a'. handle m p h ms a = Inr a'"
  then show "None \<notin> set ms \<and> None \<notin> set (mws a)"
    using handle_nil [of ms a m p h] by auto
next
  assume ok: "None \<notin> set ms \<and> None \<notin> set (mws a)"
  then have "mws a = map Some (map the (mws a))" and "ms = map Some (map the ms)"
    by (blast intro: all_Some_map)+
  then show "\<exists>a'. handle m p h ms a = Inr a'"
    using handle_Some by metis
qed

section \<open>Dispatch\<close>

lemma dispatch_hit:
  "pMH a p (reqMethod x) = Some h \<Longrightarrow> dispatch a p ks x = call h x"
  by (simp add: dispatch_def)

lemma dispatch_miss:
  "pMH a p (reqMethod x) = None \<Longrightarrow>
   dispatch a p ks x =
     Inr (http_Error ''Method Not Allowed'' StatusMethodNotAllowed
            (Header_Set ''Allow'' (allowedMethods a p ks) x))"
  by (simp add: dispatch_def)

lemma call_logging_chain_nil:
  "call (nest (map logging_mw ns) None) x = Inl NilFuncCall"
  by (induction ns arbitrary: x) (simp_all add: call_def logging_mw_def)

lemma call_probe_chain:
  "\<exists>y. call (nest (map probe_mw qs) (logging_handler t)) x = Inr y \<and>
       called y = called x @ expected_trace qs t \<and> reqMethod y = reqMethod x"
proof (induction qs arbitrary: x)
  case Nil
  then show ?case by (simp add: call_def logging_handler_def)
next
  case (Cons q qs)
  show ?case
  proof (cases q)
    case (Pass n)
    from Cons [of "x\<lparr>called := called x @ [n]\<rparr>"] show ?thesis
      by (auto simp: Pass call_def logging_mw_def)
  next
    case (Stop n)
    then show ?thesis
      by (simp add: call_def interrupt_mw_def WriteHeader_def)
  qed
qed

lemma allowedMethods_loop_concat:
  "'''' \<notin> set ks \<Longrightarrow> acc \<noteq> '''' \<Longrightarrow>
   allowedMethods_loop ks acc = acc @ concat (map (\<lambda>k. '', '' @ k) ks)"
  by (induction ks arbitrary: acc) simp_all

lemma join_comma_space_concat:
  "join_comma_space (k # ks) = k @ concat (map (\<lambda>k. '', '' @ k) ks)"
  by (induction ks arbitrary: k) simp_all

lemma allowedMethods_join:
  assumes "'''' \<notin> set ks"
  shows "allowedMethods a p ks = join_comma_space ks"
proof (cases ks)
  case Nil
  then show ?thesis by (simp add: allowedMethods_def)
next
  case (Cons k ks')
  with assms have "k \<noteq> ''''" and "'''' \<notin> set ks'" by auto
  then have "allowedMethods_loop ks' k = k @ concat (map (\<lambda>k. '', '' @ k) ks')"
    by (rule allowedMethods_loop_concat [rotated])
  with Cons \<open>k \<noteq> ''''\<close> show ?thesis
    by (simp add: allowedMethods_def join_comma_space_concat del: join_comma_space.simps)
qed

section \<open>Registration followed by dispatch\<close>

lemma pMH_update_same:
  "pMH (a\<lparr>pathMethodHandlerMap := (pathMethodHandlerMap a)(p \<mapsto> t), mux := u\<rparr>) p = t"
  by (simp add: pMH_def)

lemma handle_dispatch:
  assumes "mws a = map Some gs"
  shows "\<exists>a'. handle m p h (map Some rs) a = Inr a' \<and>
          mws a' = mws a \<and>
          pMH a' p = (pMH a p)(m \<mapsto> nest (gs @ rs) h) \<and>
          dispatch a' p ks (x\<lparr>reqMethod := m\<rparr>) = call (nest (gs @ rs) h) (x\<lparr>reqMethod := m\<rparr>)"
  by (simp add: handle_Some [OF assms] pMH_update_same dispatch_def)

section \<open>Order of the chain\<close>

text \<open>
  Claim C1. Let the router's global middleware be \<open>gs\<close> (none of them nil) and register a
  route with \<open>handle\<close>, of which \<open>Get\<close>, \<open>Post\<close>, \<open>Put\<close>, \<open>Patch\<close> and \<open>Delete\<close> are the
  instances at their fixed method, with terminal handler \<open>h\<close> and route middleware \<open>rs\<close>.
  The registration returns, and a request with that path and method runs exactly the
  handler that nests \<open>gs\<close>, then \<open>rs\<close>, then \<open>h\<close>, the head of each list outermost. Observed
  with the probes of the test suite: the names appended to \<open>called\<close> are those of the
  global middleware in list order, then those of the route middleware in list order, then
  the terminal handler's, cut short after the first middleware that does not call \<open>next\<close>.
\<close>

theorem handle_chain_order:
  assumes "mws a = map Some gs"
  shows "\<exists>a'. handle m p h (map Some rs) a = Inr a' \<and>
          dispatch a' p ks (x\<lparr>reqMethod := m\<rparr>) = call (nest (gs @ rs) h) (x\<lparr>reqMethod := m\<rparr>) \<and>
          (\<forall>qs ps t. gs = map probe_mw qs \<and> rs = map probe_mw ps \<and> h = logging_handler t \<longrightarrow>
             (\<exists>y. dispatch a' p ks (x\<lparr>reqMethod := m\<rparr>) = Inr y \<and>
                  called y = called x @ expected_trace (qs @ ps) t))"
proof -
  from handle_dispatch [OF assms, of m p h rs ks x] obtain a' where
    r: "handle m p h (map Some rs) a = Inr a'" and
    d: "dispatch a' p ks (x\<lparr>reqMethod := m\<rparr>) = call (nest (gs @ rs) h) (x\<lparr>reqMethod := m\<rparr>)"
    by blast
  have "\<exists>y. dispatch a' p ks (x\<lparr>reqMethod := m\<rparr>) = Inr y \<and>
            called y = called x @ expected_trace (qs @ ps) t"
    if "gs = map probe_mw qs \<and> rs = map probe_mw ps \<and> h = logging_handler t" for qs ps t
  proof -
    from that have "nest (gs @ rs) h = nest (map probe_mw (qs @ ps)) (logging_handler t)"
      by simp
    with d call_probe_chain [of "qs @ ps" t "x\<lparr>reqMethod := m\<rparr>"] show ?thesis
      by auto
  qed
  with r d show ?thesis by blast
qed

theorem handle_chain_order_witness:
  "\<exists>a'. Get ''/x'' (logging_handler ''H'') [Some (logging_mw ''A'')]
           (WithGlobalMiddlewares [Some (logging_mw ''G'')] (NewApplication NewServeMux)) = Inr a' \<and>
        (\<exists>y. dispatch a' ''/x'' [] (fresh ''GET'') = Inr y \<and> called y = [''G'', ''A'', ''H''])"
proof -
  let ?a = "WithGlobalMiddlewares [Some (logging_mw ''G'')] (NewApplication NewServeMux)"
  have g: "mws ?a = map Some [logging_mw ''G'']"
    by (simp add: WithGlobalMiddlewares_def NewApplication_def)
  from handle_chain_order [OF g, of "''GET''" "''/x''" "logging_handler ''H''" "[logging_mw ''A'']" "[]" "fresh ''GET''"]
  obtain a' where
    r: "handle ''GET'' ''/x'' (logging_handler ''H'') (map Some [logging_mw ''A'']) ?a = Inr a'" and
    t: "\<forall>qs ps t. [logging_mw ''G''] = map probe_mw qs \<and> [logging_mw ''A''] = map probe_mw ps \<and>
          logging_handler ''H'' = logging_handler t \<longrightarrow>
          (\<exists>y. dispatch a' ''/x'' [] ((fresh ''GET'')\<lparr>reqMethod := ''GET''\<rparr>) = Inr y \<and>
               called y = called (fresh ''GET'') @ expected_trace (qs @ ps) t)"
    by blast
  from t [rule_format, of "[Pass ''G'']" "[Pass ''A'']" "''H''"]
  have "\<exists>y. dispatch a' ''/x'' [] (fresh ''GET'') = Inr y \<and> called y = [''G'', ''A'', ''H'']"
    by (simp add: fresh_def)
  with r show ?thesis by (simp add: Get_def MethodGet_def)
qed

lemma handle_twice:
  assumes "mws a = map Some gs"
  shows "\<exists>a1 a2. handle m1 p h1 (map Some rs1) a = Inr a1 \<and>
           handle m2 p h2 (map Some rs2) a1 = Inr a2 \<and>
           pMH a2 p = (pMH a p)(m1 \<mapsto> nest (gs @ rs1) h1, m2 \<mapsto> nest (gs @ rs2) h2) \<and>
           (m1 = m2 \<longrightarrow> handle m2 p h2 (map Some rs2) a = Inr a2)"
proof -
  from handle_dispatch [OF assms, of m1 p h1 rs1] obtain a1 where
    r1: "handle m1 p h1 (map Some rs1) a = Inr a1" and g1: "mws a1 = mws a" and
    t1: "pMH a1 p = (pMH a p)(m1 \<mapsto> nest (gs @ rs1) h1)"
    by blast
  from g1 assms have g: "mws a1 = map Some gs" by simp
  from handle_dispatch [OF g, of m2 p h2 rs2] obtain a2 where
    r2: "handle m2 p h2 (map Some rs2) a1 = Inr a2" and
    t2: "pMH a2 p = (pMH a1 p)(m2 \<mapsto> nest (gs @ rs2) h2)"
    by blast
  have "handle m2 p h2 (map Some rs2) a = Inr a2" if "m1 = m2"
    using r1 r2 that
    by (simp add: handle_Some [OF assms] handle_Some [OF g] pMH_update_same)
      (auto simp: handle_Some [OF assms] pMH_def)
  with r1 r2 t1 t2 show ?thesis by auto
qed

section \<open>Overwriting and isolation\<close>

text \<open>
  Claim C4. Registering \<open>(p, m, h1)\<close> and then \<open>(p, m, h2)\<close> (middleware non-nil): both
  calls return, the router is then the one that registering \<open>(p, m, h2)\<close> alone would
  have produced, the table holds the chain of \<open>h2\<close> under \<open>m\<close>, and a request with method
  \<open>m\<close> to \<open>p\<close> runs that chain; \<open>h1\<close> and its middleware have left no trace.
\<close>

theorem last_registration_wins:
  assumes "mws a = map Some gs"
  shows "\<exists>a1 a2. handle m p h1 (map Some rs1) a = Inr a1 \<and>
           handle m p h2 (map Some rs2) a1 = Inr a2 \<and>
           handle m p h2 (map Some rs2) a = Inr a2 \<and>
           pMH a2 p m = Some (nest (gs @ rs2) h2) \<and>
           dispatch a2 p ks (x\<lparr>reqMethod := m\<rparr>) = call (nest (gs @ rs2) h2) (x\<lparr>reqMethod := m\<rparr>)"
proof -
  from handle_twice [OF assms, of m p h1 rs1 m h2 rs2] obtain a1 a2 where
    "handle m p h1 (map Some rs1) a = Inr a1" and
    "handle m p h2 (map Some rs2) a1 = Inr a2" and
    t: "pMH a2 p = (pMH a p)(m \<mapsto> nest (gs @ rs1) h1, m \<mapsto> nest (gs @ rs2) h2)" and
    "handle m p h2 (map Some rs2) a = Inr a2"
    by blast
  moreover from t have "pMH a2 p m = Some (nest (gs @ rs2) h2)" by simp
  moreover from this
  have "dispatch a2 p ks (x\<lparr>reqMethod := m\<rparr>) = call (nest (gs @ rs2) h2) (x\<lparr>reqMethod := m\<rparr>)"
    by (simp add: dispatch_hit)
  ultimately show ?thesis by blast
qed

theorem last_registration_wins_witness:
  "\<exists>a1 a2. Get ''/test'' (stringHandler ''first'') [] (NewApplication NewServeMux) = Inr a1 \<and>
     Get ''/test'' (stringHandler ''second'') [] a1 = Inr a2 \<and>
     (\<exists>y. dispatch a2 ''/test'' [] (fresh ''GET'') = Inr y \<and> wBody y = ''second'')"
proof -
  have g: "mws (NewApplication NewServeMux) = map Some []"
    by (simp add: NewApplication_def)
  from last_registration_wins [OF g, of "''GET''" "''/test''" "stringHandler ''first''" "[]"
      "stringHandler ''second''" "[]" "[]" "fresh ''GET''"]
  show ?thesis
    by (auto simp: Get_def MethodGet_def fresh_def stringHandler_def call_def Write_def
        WriteHeader_def)
qed

text \<open>
  Claim C5. Two registrations on one path under different methods \<open>m1\<close> and \<open>m2\<close>
  (middleware non-nil): a request with method \<open>m1\<close> runs the chain composed for \<open>h1\<close>, a
  request with method \<open>m2\<close> the chain composed for \<open>h2\<close>; neither result depends on the
  other registration's handler or middleware.
\<close>

theorem method_isolation:
  assumes "mws a = map Some gs" and "m1 \<noteq> m2"
  shows "\<exists>a1 a2. handle m1 p h1 (map Some rs1) a = Inr a1 \<and>
           handle m2 p h2 (map Some rs2) a1 = Inr a2 \<and>
           dispatch a2 p ks (x\<lparr>reqMethod := m1\<rparr>) = call (nest (gs @ rs1) h1) (x\<lparr>reqMethod := m1\<rparr>) \<and>
           dispatch a2 p ks (x\<lparr>reqMethod := m2\<rparr>) = call (nest (gs @ rs2) h2) (x\<lparr>reqMethod := m2\<rparr>)"
proof -
  from handle_twice [OF assms(1), of m1 p h1 rs1 m2 h2 rs2] obtain a1 a2 where
    "handle m1 p h1 (map Some rs1) a = Inr a1" and
    "handle m2 p h2 (map Some rs2) a1 = Inr a2" and
    t: "pMH a2 p = (pMH a p)(m1 \<mapsto> nest (gs @ rs1) h1, m2 \<mapsto> nest (gs @ rs2) h2)"
    by blast
  moreover from t assms(2) have "pMH a2 p m1 = Some (nest (gs @ rs1) h1)"
    and "pMH a2 p m2 = Some (nest (gs @ rs2) h2)" by simp_all
  then have "dispatch a2 p ks (x\<lparr>reqMethod := m1\<rparr>) = call (nest (gs @ rs1) h1) (x\<lparr>reqMethod := m1\<rparr>)"
    and "dispatch a2 p ks (x\<lparr>reqMethod := m2\<rparr>) = call (nest (gs @ rs2) h2) (x\<lparr>reqMethod := m2\<rparr>)"
    by (simp_all add: dispatch_hit)
  ultimately show ?thesis by blast
qed

theorem method_isolation_witness:
  "''GET'' \<noteq> ''POST'' \<and>
   (\<exists>a1 a2. Get ''/foo'' (logging_handler ''bar'') [] (NewApplication NewServeMux) = Inr a1 \<and>
     Post ''/foo'' (logging_handler ''baz'') [] a1 = Inr a2 \<and>
     (\<exists>y. dispatch a2 ''/foo'' [] (fresh ''GET'') = Inr y \<and> called y = [''bar'']) \<and>
     (\<exists>y. dispatch a2 ''/foo'' [] (fresh ''POST'') = Inr y \<and> called y = [''baz'']))"
proof -
  have g: "mws (NewApplication NewServeMux) = map Some []"
    by (simp add: NewApplication_def)
  have ne: "''GET'' \<noteq> ''POST''" by simp
  from method_isolation [OF g ne, of "''/foo''" "logging_handler ''bar''" "[]"
      "logging_handler ''baz''" "[]" "[]" "fresh ''GET''"]
  show ?thesis
    by (auto simp: Get_def Post_def MethodGet_def MethodPost_def fresh_def logging_handler_def
        call_def)
qed

lemma WithGlobalMiddlewares_frame:
  "pathMethodHandlerMap (WithGlobalMiddlewares ms a) = pathMethodHandlerMap a"
  "mux (WithGlobalMiddlewares ms a) = mux a"
  "mws (WithGlobalMiddlewares ms a) = mws a @ ms"
  "pMH (WithGlobalMiddlewares ms a) p = pMH a p"
  "allowedMethods (WithGlobalMiddlewares ms a) p ks = allowedMethods a p ks"
  by (simp_all add: WithGlobalMiddlewares_def pMH_def allowedMethods_def)

lemma WithGlobalMiddlewares_dispatch:
  "dispatch (WithGlobalMiddlewares ms a) p ks x = dispatch a p ks x"
  by (simp add: dispatch_def WithGlobalMiddlewares_frame split: option.splits)

section \<open>Global middleware added later\<close>

text \<open>
  Claim C7. \<open>WithGlobalMiddlewares\<close> appends the given middleware, in the order given, to
  the global list of the router it returns and changes nothing else: the route table,
  with every composed handler stored in it, and the multiplexer are as before, so every
  request is answered as before. In particular a route registered, under global
  middleware \<open>gs\<close>, before the call still runs the chain of \<open>gs\<close>, its route middleware
  and its handler, without the middleware added later; a route registered after the call
  is composed with the longer list.
\<close>

theorem global_middleware_not_retroactive:
  assumes "mws a = map Some gs" and "handle m p h (map Some rs) a = Inr a1"
  shows "pathMethodHandlerMap (WithGlobalMiddlewares ms a1) = pathMethodHandlerMap a1 \<and>
         mux (WithGlobalMiddlewares ms a1) = mux a1 \<and>
         mws (WithGlobalMiddlewares ms a1) = mws a1 @ ms \<and>
         (\<forall>q ks x. ServeHTTP (WithGlobalMiddlewares ms a1) q ks x = ServeHTTP a1 q ks x) \<and>
         dispatch (WithGlobalMiddlewares ms a1) p ks (x\<lparr>reqMethod := m\<rparr>) =
           call (nest (gs @ rs) h) (x\<lparr>reqMethod := m\<rparr>) \<and>
         (\<forall>ns. ms = map Some ns \<longrightarrow>
            (\<exists>a2. handle m' p' h' (map Some rs') (WithGlobalMiddlewares ms a1) = Inr a2 \<and>
               dispatch a2 p' ks (x\<lparr>reqMethod := m'\<rparr>) =
                 call (nest (gs @ ns @ rs') h') (x\<lparr>reqMethod := m'\<rparr>)))"
proof -
  let ?b = "WithGlobalMiddlewares ms a1"
  from handle_dispatch [OF assms(1), of m p h rs ks x] assms(2)
  have g1: "mws a1 = map Some gs"
    and d1: "dispatch a1 p ks (x\<lparr>reqMethod := m\<rparr>) = call (nest (gs @ rs) h) (x\<lparr>reqMethod := m\<rparr>)"
    using assms(1) by auto
  have serve: "ServeHTTP ?b q ks x = ServeHTTP a1 q ks x" for q ks x
    by (simp add: ServeHTTP_def WithGlobalMiddlewares_frame WithGlobalMiddlewares_dispatch)
  have later: "\<exists>a2. handle m' p' h' (map Some rs') ?b = Inr a2 \<and>
      dispatch a2 p' ks (x\<lparr>reqMethod := m'\<rparr>) = call (nest (gs @ ns @ rs') h') (x\<lparr>reqMethod := m'\<rparr>)"
    if "ms = map Some ns" for ns
  proof -
    from g1 that have g2: "mws ?b = map Some (gs @ ns)"
      by (simp add: WithGlobalMiddlewares_frame)
    from handle_dispatch [OF g2, of m' p' h' rs' ks x] show ?thesis
      by auto
  qed
  from d1 serve later show ?thesis
    by (simp add: WithGlobalMiddlewares_frame WithGlobalMiddlewares_dispatch)
qed

theorem global_middleware_not_retroactive_witness:
  "\<exists>a1. Get ''/old'' (logging_handler ''H'') [Some (logging_mw ''A'')] (NewApplication NewServeMux) = Inr a1 \<and>
     mws (WithGlobalMiddlewares [Some (logging_mw ''G'')] a1) = [Some (logging_mw ''G'')] \<and>
     (\<exists>y. dispatch (WithGlobalMiddlewares [Some (logging_mw ''G'')] a1) ''/old'' [] (fresh ''GET'') = Inr y \<and>
          called y = [''A'', ''H'']) \<and>
     (\<exists>a2 y. Get ''/new'' (logging_handler ''H'') [Some (logging_mw ''A'')]
               (WithGlobalMiddlewares [Some (logging_mw ''G'')] a1) = Inr a2 \<and>
          dispatch a2 ''/new'' [] (fresh ''GET'') = Inr y \<and> called y = [''G'', ''A'', ''H''])"
proof -
  let ?ms = "[Some (logging_mw ''G'')]"
  have g: "mws (NewApplication NewServeMux) = map Some []"
    by (simp add: NewApplication_def)
  from handle_dispatch [OF g, of "''GET''" "''/old''" "logging_handler ''H''" "[logging_mw ''A'']"]
  obtain a1 where
    r: "handle ''GET'' ''/old'' (logging_handler ''H'') (map Some [logging_mw ''A'']) (NewApplication NewServeMux) = Inr a1"
    and "mws a1 = mws (NewApplication NewServeMux)"
    by blast
  then have m1: "mws a1 = []"
    by (simp add: NewApplication_def)
  note c = global_middleware_not_retroactive [OF g r, of ?ms "[]" "fresh ''GET''"
      "''GET''" "''/new''" "logging_handler ''H''" "[logging_mw ''A'']"]
  from c m1 have "mws (WithGlobalMiddlewares ?ms a1) = ?ms"
    by simp
  moreover from c
  have "\<exists>y. dispatch (WithGlobalMiddlewares ?ms a1) ''/old'' [] (fresh ''GET'') = Inr y \<and>
          called y = [''A'', ''H'']"
    by (simp add: fresh_def logging_handler_def logging_mw_def call_def)
  moreover note c [THEN conjunct2, THEN conjunct2, THEN conjunct2, THEN conjunct2, THEN conjunct2]
  from this [rule_format, of "[logging_mw ''G'']"]
  have "\<exists>a2 y. Get ''/new'' (logging_handler ''H'') [Some (logging_mw ''A'')]
            (WithGlobalMiddlewares ?ms a1) = Inr a2 \<and>
          dispatch a2 ''/new'' [] (fresh ''GET'') = Inr y \<and> called y = [''G'', ''A'', ''H'']"
    by (auto simp: Get_def MethodGet_def fresh_def logging_handler_def logging_mw_def call_def)
  ultimately show ?thesis
    using r by (simp add: Get_def MethodGet_def)
qed

section \<open>A nil terminal handler\<close>

text \<open>
  Claim C8. Registering a nil terminal handler (middleware non-nil) returns normally and
  stores an entry under the method, so a later matching request takes the handler branch
  and not the 405 branch. The callback returns whatever the stored chain returns: calling
  the nil terminal step is a runtime fault, and with no middleware, or with middleware
  that passes the request on, that fault is the outcome of the request.
\<close>

theorem nil_handler_faults_at_dispatch:
  assumes "mws a = map Some gs"
  shows "\<exists>a'. handle m p None (map Some rs) a = Inr a' \<and>
          pMH a' p m = Some (nest (gs @ rs) None) \<and>
          dispatch a' p ks (x\<lparr>reqMethod := m\<rparr>) = call (nest (gs @ rs) None) (x\<lparr>reqMethod := m\<rparr>) \<and>
          (\<forall>y. call None y = Inl NilFuncCall) \<and>
          (\<forall>ns. gs @ rs = map logging_mw ns \<longrightarrow>
             dispatch a' p ks (x\<lparr>reqMethod := m\<rparr>) = Inl NilFuncCall)"
proof -
  from handle_dispatch [OF assms, of m p None rs ks x] obtain a' where
    r: "handle m p None (map Some rs) a = Inr a'" and
    t: "pMH a' p = (pMH a p)(m \<mapsto> nest (gs @ rs) None)" and
    d: "dispatch a' p ks (x\<lparr>reqMethod := m\<rparr>) = call (nest (gs @ rs) None) (x\<lparr>reqMethod := m\<rparr>)"
    by blast
  from d have "dispatch a' p ks (x\<lparr>reqMethod := m\<rparr>) = Inl NilFuncCall"
    if "gs @ rs = map logging_mw ns" for ns
    using that by (simp add: call_logging_chain_nil)
  moreover have "call None y = Inl NilFuncCall" for y
    by (simp add: call_def)
  moreover from t have "pMH a' p m = Some (nest (gs @ rs) None)" by simp
  ultimately show ?thesis using r d by blast
qed

theorem nil_handler_faults_at_dispatch_witness:
  "\<exists>a'. Get ''/test'' None [] (NewApplication NewServeMux) = Inr a' \<and>
     pMH a' ''/test'' ''GET'' = Some None \<and>
     dispatch a' ''/test'' [] (fresh ''GET'') = Inl NilFuncCall"
proof -
  have g: "mws (NewApplication NewServeMux) = map Some []"
    by (simp add: NewApplication_def)
  from nil_handler_faults_at_dispatch [OF g, of "''GET''" "''/test''" "[]" "[]" "fresh ''GET''"]
  obtain a' where "handle ''GET'' ''/test'' None (map Some []) (NewApplication NewServeMux) = Inr a'"
    and "pMH a' ''/test'' ''GET'' = Some (nest ([] @ []) None)"
    and "\<forall>ns. [] @ [] = map logging_mw ns \<longrightarrow>
           dispatch a' ''/test'' [] ((fresh ''GET'')\<lparr>reqMethod := ''GET''\<rparr>) = Inl NilFuncCall"
    by blast
  then show ?thesis
    by (auto simp: Get_def MethodGet_def fresh_def)
qed

section \<open>Routers built through the public API\<close>

lemma run_snoc:
  "run (cs @ [c]) a = (case run cs a of Inl e \<Rightarrow> Inl e | Inr a' \<Rightarrow> api_step c a')"
  by (induction cs arbitrary: a) (simp_all split: sum.splits)

lemma run_append:
  "run (cs @ ds) a = (case run cs a of Inl e \<Rightarrow> Inl e | Inr a' \<Rightarrow> run ds a')"
  by (induction cs arbitrary: a) (simp_all split: sum.splits)

lemma registered_snoc:
  "registered (cs @ [c]) path =
     registered cs path @
       (case route_of c of None \<Rightarrow> [] | Some (m, p) \<Rightarrow> if p = path then [m] else [])"
  by (simp add: registered_def List.map_filter_def split: option.splits)


text \<open>What one successful registration does to the state.\<close>

lemma handle_Inr_state:
  assumes "handle m p h ms a = Inr a'"
  shows "\<exists>c. pathMethodHandlerMap a' = (pathMethodHandlerMap a)(p \<mapsto> (pMH a p)(m \<mapsto> c)) \<and>
             mux a' = (if pathMethodHandlerMap a p = None then mux a @ [p] else mux a) \<and>
             mws a' = mws a"
proof -
  from assms have "None \<notin> set ms \<and> None \<notin> set (mws a)"
    using handle_Inr_iff by blast
  then have "ms = map Some (map the ms)" and g: "mws a = map Some (map the (mws a))"
    by (blast intro: all_Some_map)+
  then obtain rs where ms: "ms = map Some rs" by blast
  from assms show ?thesis
    unfolding ms handle_Some [OF g] by (auto simp: HandleFunc_def)
qed

text \<open>What a registration that faults leaves behind.\<close>

lemma handle_Inl_state:
  assumes "handle m p h ms a = Inl (e, a')"
  shows "pathMethodHandlerMap a' =
           (if pathMethodHandlerMap a p = None then (pathMethodHandlerMap a)(p \<mapsto> Map.empty)
            else pathMethodHandlerMap a) \<and>
         mux a' = (if pathMethodHandlerMap a p = None then mux a @ [p] else mux a) \<and>
         mws a' = mws a"
proof -
  from assms have "\<not> (None \<notin> set ms \<and> None \<notin> set (mws a))"
    using handle_Inr_iff [of m p h ms a] by auto
  then have "None \<in> set ms \<or> None \<in> set (mws a)" by blast
  from handle_nil [OF this, of m p h] assms show ?thesis
    by (auto simp: HandleFunc_def)
qed

lemma run_recovering_snoc:
  "run_recovering (cs @ [c]) a = recover (api_step c (run_recovering cs a))"
  by (induction cs arbitrary: a) simp_all


lemma returned_append:
  "returned (cs @ ds) a = returned cs a @ returned ds (run_recovering cs a)"
  by (induction cs arbitrary: a) (auto split: sum.splits)

lemma run_Inr_recovering:
  "run cs a = Inr a' \<Longrightarrow> run_recovering cs a = a' \<and> returned cs a = cs"
  by (induction cs arbitrary: a) (auto split: sum.splits)

lemma reached_New: "reached [] [] (NewApplication NewServeMux)"
  by (simp add: reached_def NewApplication_def NewServeMux_def pMH_def registered_def
      List.map_filter_def)

lemma reached_handle_Inr:
  assumes b: "reached tried stored a" and h: "handle m p h ms a = Inr a'"
    and r: "route_of c = Some (m, p)"
  shows "reached (tried @ [c]) (stored @ [c]) a'"
proof -
  from handle_Inr_state [OF h] obtain k where
    t: "pathMethodHandlerMap a' = (pathMethodHandlerMap a)(p \<mapsto> (pMH a p)(m \<mapsto> k))" and
    u: "mux a' = (if pathMethodHandlerMap a p = None then mux a @ [p] else mux a)"
    by blast
  have pm: "pMH a' q = (if q = p then (pMH a p)(m \<mapsto> k) else pMH a q)" for q
    by (simp add: pMH_def t)
  from b have 1: "set (mux a) = dom (pathMethodHandlerMap a)" and 2: "distinct (mux a)"
    and 3: "\<And>q. dom (pMH a q) = set (registered stored q)"
    and 4: "\<And>q. q \<in> dom (pathMethodHandlerMap a) \<longleftrightarrow> registered tried q \<noteq> []"
    by (simp_all add: reached_def)
  have "set (mux a') = dom (pathMethodHandlerMap a')"
    using 1 by (auto simp: t u)
  moreover have "distinct (mux a')"
    using 1 2 by (auto simp: u)
  moreover have "dom (pMH a' q) = set (registered (stored @ [c]) q)" for q
    using 3 [of q] by (auto simp: pm registered_snoc r)
  moreover have "q \<in> dom (pathMethodHandlerMap a') \<longleftrightarrow> registered (tried @ [c]) q \<noteq> []" for q
    using 4 [of q] by (auto simp: t registered_snoc r)
  ultimately show ?thesis by (simp add: reached_def)
qed

lemma reached_handle_Inl:
  assumes b: "reached tried stored a" and h: "handle m p h ms a = Inl (e, a')"
    and r: "route_of c = Some (m, p)"
  shows "reached (tried @ [c]) stored a'"
proof -
  note s = handle_Inl_state [OF h]
  from s have t: "pathMethodHandlerMap a' =
      (if pathMethodHandlerMap a p = None then (pathMethodHandlerMap a)(p \<mapsto> Map.empty)
       else pathMethodHandlerMap a)"
    and u: "mux a' = (if pathMethodHandlerMap a p = None then mux a @ [p] else mux a)"
    by simp_all
  have pm: "pMH a' q = pMH a q" for q
    by (simp add: pMH_def t)
  from b have 1: "set (mux a) = dom (pathMethodHandlerMap a)" and 2: "distinct (mux a)"
    and 3: "\<And>q. dom (pMH a q) = set (registered stored q)"
    and 4: "\<And>q. q \<in> dom (pathMethodHandlerMap a) \<longleftrightarrow> registered tried q \<noteq> []"
    by (simp_all add: reached_def)
  have "set (mux a') = dom (pathMethodHandlerMap a')"
    using 1 by (auto simp: t u)
  moreover have "distinct (mux a')"
    using 1 2 by (auto simp: u)
  moreover have "dom (pMH a' q) = set (registered stored q)" for q
    using 3 [of q] by (simp add: pm)
  moreover have "q \<in> dom (pathMethodHandlerMap a') \<longleftrightarrow> registered (tried @ [c]) q \<noteq> []" for q
    using 4 [of q] by (auto simp: t registered_snoc r)
  ultimately show ?thesis by (simp add: reached_def)
qed

lemma reached_step:
  assumes "reached tried stored a"
  shows "reached (tried @ [c]) (stored @ returned [c] a) (recover (api_step c a))"
proof (cases "api_step c a")
  case (Inr a')
  show ?thesis
  proof (cases c)
    case (CallWithGlobalMiddlewares ms)
    with assms show ?thesis
      by (simp add: reached_def WithGlobalMiddlewares_frame registered_snoc)
  qed (use assms Inr in \<open>auto simp: Post_def Get_def Put_def Patch_def Delete_def
        intro: reached_handle_Inr\<close>)
next
  case (Inl f)
  obtain e a' where f: "f = (e, a')" by (cases f)
  show ?thesis
  proof (cases c)
    case (CallWithGlobalMiddlewares ms)
    with Inl show ?thesis by simp
  qed (use assms Inl f in \<open>auto simp: Post_def Get_def Put_def Patch_def Delete_def
        intro: reached_handle_Inl\<close>)
qed

lemma reached_run:
  assumes "reached tried stored a0"
  shows "reached (tried @ cs) (stored @ returned cs a0) (run_recovering cs a0)"
proof (induction cs rule: rev_induct)
  case Nil
  with assms show ?case by simp
next
  case (snoc c cs)
  from reached_step [OF snoc, of c] show ?case
    by (simp add: run_recovering_snoc returned_append)
qed

lemma reached_recovering:
  "reached cs (returned cs (NewApplication NewServeMux))
     (run_recovering cs (NewApplication NewServeMux))"
  using reached_run [OF reached_New] by simp

lemma built_reachable:
  assumes "run cs (NewApplication NewServeMux) = Inr a"
  shows "built cs a"
proof -
  from run_Inr_recovering [OF assms]
  have "run_recovering cs (NewApplication NewServeMux) = a"
    and "returned cs (NewApplication NewServeMux) = cs" by simp_all
  with reached_recovering [of cs] show ?thesis
    by (simp add: built_def reached_def)
qed

section \<open>The allowed-methods string\<close>

lemma split_comma_space_token:
  "CHR '','' \<notin> set k \<Longrightarrow> split_comma_space cur k = [cur @ k]"
  by (induction k arbitrary: cur) auto

lemma split_comma_space_sep:
  "CHR '','' \<notin> set k \<Longrightarrow>
   split_comma_space cur (k @ '', '' @ s) = (cur @ k) # split_comma_space [] s"
  by (induction k arbitrary: cur) auto

lemma split_join_comma_space:
  "\<forall>k \<in> set (k0 # ks). CHR '','' \<notin> set k \<Longrightarrow>
   split_comma_space [] (join_comma_space (k0 # ks)) = k0 # ks"
proof (induction ks arbitrary: k0)
  case Nil
  then show ?case by (simp add: split_comma_space_token)
next
  case (Cons k ks)
  from Cons.prems have "CHR '','' \<notin> set k0" by simp
  then have "split_comma_space [] (k0 @ '', '' @ join_comma_space (k # ks)) =
      ([] @ k0) # split_comma_space [] (join_comma_space (k # ks))"
    by (rule split_comma_space_sep)
  with Cons show ?case by simp
qed

lemma join_comma_space_empty_iff:
  assumes "'''' \<notin> set ks"
  shows "join_comma_space ks = '''' \<longleftrightarrow> ks = []"
proof (cases ks)
  case Nil
  then show ?thesis by simp
next
  case (Cons k ks')
  with assms have "k \<noteq> ''''" by auto
  with Cons show ?thesis
    by (simp add: join_comma_space_concat del: join_comma_space.simps)
qed

lemma listed_join_comma_space:
  assumes "\<forall>k \<in> set ks. CHR '','' \<notin> set k \<and> k \<noteq> ''''"
  shows "listed (join_comma_space ks) = ks"
proof (cases ks)
  case Nil
  then show ?thesis by (simp add: listed_def)
next
  case (Cons k0 ks')
  from assms have "'''' \<notin> set ks" by auto
  with Cons have "join_comma_space ks \<noteq> ''''"
    by (simp add: join_comma_space_empty_iff del: join_comma_space.simps)
  moreover from assms Cons have "split_comma_space [] (join_comma_space (k0 # ks')) = k0 # ks'"
    by (intro split_join_comma_space) simp
  ultimately show ?thesis using Cons by (simp add: listed_def)
qed

text \<open>The public entry points register the five canonical method names and no others.\<close>

lemma route_of_canonical:
  "route_of c = Some (m, p) \<Longrightarrow> m \<in> {''POST'', ''GET'', ''PUT'', ''PATCH'', ''DELETE''}"
  by (cases c)
    (auto simp: MethodPost_def MethodGet_def MethodPut_def MethodPatch_def MethodDelete_def)

lemma registered_canonical:
  "m \<in> set (registered cs p) \<Longrightarrow> m \<in> {''POST'', ''GET'', ''PUT'', ''PATCH'', ''DELETE''}"
  by (auto simp: registered_def List.map_filter_def dest: route_of_canonical)

lemma canonical_plain:
  "m \<in> {''POST'', ''GET'', ''PUT'', ''PATCH'', ''DELETE''} \<Longrightarrow>
   CHR '','' \<notin> set m \<and> m \<noteq> '''' \<and> map ascii_upper m = m"
  by (auto simp: ascii_upper_def)

lemma allowedMethods_built:
  assumes "built cs a" and "range_order (pMH a path) ks"
  shows "allowedMethods a path ks = join_comma_space ks"
    and "listed (allowedMethods a path ks) = ks"
    and "distinct ks" and "set ks = set (registered cs path)"
proof -
  from assms show d: "distinct ks" and s: "set ks = set (registered cs path)"
    by (simp_all add: built_def range_order_def)
  from s have plain: "\<forall>k \<in> set ks. CHR '','' \<notin> set k \<and> k \<noteq> ''''"
    using registered_canonical canonical_plain by blast
  then have "'''' \<notin> set ks" by auto
  then show j: "allowedMethods a path ks = join_comma_space ks"
    by (rule allowedMethods_join)
  from plain show "listed (allowedMethods a path ks) = ks"
    unfolding j by (rule listed_join_comma_space)
qed

text \<open>A visiting order exists for every table of a router built through the API.\<close>

lemma range_order_exists:
  "built cs a \<Longrightarrow> range_order (pMH a path) (remdups (registered cs path))"
  by (simp add: built_def range_order_def)

text \<open>
  Claim C3. In a router built by calls of the public API, computing the allowed-methods
  string of a path, whatever order \<open>ks\<close> the loop visits the table in, gives the names of
  \<open>ks\<close> joined by a comma and a space with no trailing separator; read back, the string
  lists exactly \<open>ks\<close>, which has no repetition and consists of the methods registered for
  the path and of no others. With nothing registered for the path the string is empty.
\<close>

theorem allowedMethods_lists_registered:
  assumes "run cs (NewApplication NewServeMux) = Inr a" and "range_order (pMH a path) ks"
  shows "allowedMethods a path ks = join_comma_space ks \<and>
         listed (allowedMethods a path ks) = ks \<and>
         distinct ks \<and> set ks = set (registered cs path) \<and>
         (registered cs path = [] \<longrightarrow> allowedMethods a path ks = '''')"
proof -
  note b = built_reachable [OF assms(1)]
  note am = allowedMethods_built [OF b assms(2)]
  have "allowedMethods a path ks = ''''" if "registered cs path = []"
    using am(1,4) that by simp
  with am show ?thesis by blast
qed

theorem allowedMethods_lists_registered_witness:
  "\<exists>a. run [CallPost ''/foo'' (stringHandler ''baz'') [], CallGet ''/foo'' (stringHandler ''bar'') [],
            CallPost ''/foo'' (stringHandler ''again'') []]
         (NewApplication NewServeMux) = Inr a \<and>
       range_order (pMH a ''/foo'') [''GET'', ''POST''] \<and>
       allowedMethods a ''/foo'' [''GET'', ''POST''] = ''GET, POST'' \<and>
       listed ''GET, POST'' = [''GET'', ''POST''] \<and>
       range_order (pMH a ''/none'') [] \<and>
       allowedMethods a ''/none'' [] = ''''"
proof -
  let ?cs = "[CallPost ''/foo'' (stringHandler ''baz'') [], CallGet ''/foo'' (stringHandler ''bar'') [],
            CallPost ''/foo'' (stringHandler ''again'') []]"
  have "\<exists>a. run ?cs (NewApplication NewServeMux) = Inr a"
    by (simp add: Post_def Get_def handle_def middleware_def applyMiddleware_def
        NewApplication_def Let_def)
  then obtain a where r: "run ?cs (NewApplication NewServeMux) = Inr a" ..
  then have t: "pMH a ''/foo'' = [''POST'' \<mapsto> stringHandler ''again'', ''GET'' \<mapsto> stringHandler ''bar'']"
    and n: "pMH a ''/none'' = Map.empty"
    by (auto simp: Post_def Get_def handle_def middleware_def applyMiddleware_def
        NewApplication_def Let_def pMH_def MethodGet_def MethodPost_def HandleFunc_def NewServeMux_def)
  have o: "range_order (pMH a ''/foo'') [''GET'', ''POST'']"
    unfolding t by (auto simp: range_order_def)
  have e: "range_order (pMH a ''/none'') []"
    unfolding n by (simp add: range_order_def)
  note c1 = allowedMethods_lists_registered [OF r o]
  note c2 = allowedMethods_lists_registered [OF r e]
  from c1 have j: "allowedMethods a ''/foo'' [''GET'', ''POST''] = ''GET, POST''"
    by simp
  from c1 have "listed (allowedMethods a ''/foo'' [''GET'', ''POST'']) = [''GET'', ''POST'']"
    by (rule conjunct2 [THEN conjunct1])
  then have l: "listed ''GET, POST'' = [''GET'', ''POST'']"
    unfolding j .
  from c2 have "allowedMethods a ''/none'' [] = ''''"
    by simp
  with r o e j l show ?thesis by blast
qed

section \<open>The route table and the multiplexer\<close>


lemma reached_installed:
  "reached tried stored a \<Longrightarrow> path \<in> set (mux a) \<longleftrightarrow> registered tried path \<noteq> []"
  by (simp add: reached_def)

lemma reached_stored_installed:
  assumes "reached tried stored a" and "registered stored path \<noteq> []"
  shows "path \<in> set (mux a)"
proof -
  from assms have "dom (pMH a path) \<noteq> {}"
    by (simp add: reached_def)
  then have "pathMethodHandlerMap a path \<noteq> None"
    by (auto simp: pMH_def)
  with assms(1) show ?thesis
    by (auto simp: reached_def)
qed




section \<open>The 405 response\<close>

lemma http_Error_fresh:
  assumes "wStatus x = None"
  shows "wStatus (http_Error msg c (Header_Set k v x)) = Some c"
    and "wBody (http_Error msg c (Header_Set k v x)) = wBody x @ msg @ [CHR 0x0A]"
    and "k \<notin> {''Content-Length'', ''Content-Type'', ''X-Content-Type-Options''} \<Longrightarrow>
         wHeader (http_Error msg c (Header_Set k v x)) k = Some v"
  using assms
  by (simp_all add: http_Error_def Header_Set_def Header_Del_def WriteHeader_def Write_def Let_def)

lemma built_installed:
  "built cs a \<Longrightarrow> path \<in> set (mux a) \<longleftrightarrow> registered cs path \<noteq> []"
  by (simp add: built_def)

lemma built_lookup:
  "built cs a \<Longrightarrow> pMH a path m = None \<longleftrightarrow> m \<notin> set (registered cs path)"
proof -
  assume "built cs a"
  then have "dom (pMH a path) = set (registered cs path)"
    by (simp add: built_def)
  then show ?thesis by (metis domIff)
qed

lemma allowedMethods_reached:
  assumes "reached tried stored a" and "range_order (pMH a path) ks"
  shows "allowedMethods a path ks = join_comma_space ks"
    and "set ks = set (registered stored path)"
proof -
  from assms show s: "set ks = set (registered stored path)"
    by (simp add: reached_def range_order_def)
  then have "'''' \<notin> set ks"
    using registered_canonical canonical_plain by blast
  then show "allowedMethods a path ks = join_comma_space ks"
    by (rule allowedMethods_join)
qed

text \<open>
  Claim C9, as the specification states it, fails: the closure is installed before any
  method is stored, so after \<^verbatim>\<open>Get("/p", h, nil)\<close>, recovered from by the caller, the
  closure of \<^verbatim>\<open>/p\<close> is installed over an empty table; the only visiting order is the
  empty one, every request takes the 405 branch, and the value written under \<open>Allow\<close> is
  the empty string.
\<close>

theorem allow_header_nonempty_counterexample:
  "''/p'' \<in> set (mux
     (run_recovering [CallGet ''/p'' (stringHandler ''h'') [None]] (NewApplication NewServeMux))) \<and>
   range_order (pMH
     (run_recovering [CallGet ''/p'' (stringHandler ''h'') [None]] (NewApplication NewServeMux))
     ''/p'') [] \<and>
   ServeHTTP
     (run_recovering [CallGet ''/p'' (stringHandler ''h'') [None]] (NewApplication NewServeMux))
     ''/p'' [] (fresh ''GET'') =
     Inr (http_Error ''Method Not Allowed'' StatusMethodNotAllowed
            (Header_Set ''Allow'' '''' (fresh ''GET''))) \<and>
   wHeader (http_Error ''Method Not Allowed'' StatusMethodNotAllowed
            (Header_Set ''Allow'' '''' (fresh ''GET''))) ''Allow'' = Some ''''"
  by (simp add: Get_def handle_def middleware_def applyMiddleware_def NewApplication_def
      NewServeMux_def HandleFunc_def pMH_def Let_def range_order_def ServeHTTP_def dispatch_def
      allowedMethods_def fresh_def http_Error_def Header_Set_def Header_Del_def WriteHeader_def
      Write_def)

text \<open>
  Claim C9, amended. Let a router be built by calls of the public API, the caller
  recovering from those that fault. For a path for which at least one registration has
  returned (so, when every call returned, for every path the closure is installed for),
  the closure is installed and, whenever it takes the 405 branch, the table of the path
  is not empty and the value written under \<open>Allow\<close> is not the empty string, whatever the
  order the loop visits the table in.
\<close>

theorem allow_header_nonempty:
  assumes "a = run_recovering cs (NewApplication NewServeMux)"
    and "registered (returned cs (NewApplication NewServeMux)) path \<noteq> [] \<or>
         run cs (NewApplication NewServeMux) = Inr a \<and> path \<in> set (mux a)"
    and "pMH a path (reqMethod x) = None"
    and "range_order (pMH a path) ks"
  shows "ServeHTTP a path ks x =
           Inr (http_Error ''Method Not Allowed'' StatusMethodNotAllowed
                  (Header_Set ''Allow'' (allowedMethods a path ks) x)) \<and>
         allowedMethods a path ks \<noteq> '''' \<and> dom (pMH a path) \<noteq> {}"
proof -
  let ?new = "NewApplication NewServeMux"
  from reached_recovering [of cs] assms(1) have b: "reached cs (returned cs ?new) a"
    by simp
  have ne: "registered (returned cs ?new) path \<noteq> []"
  proof (rule disjE [OF assms(2)])
    assume "run cs ?new = Inr a \<and> path \<in> set (mux a)"
    then have "returned cs ?new = cs" and "path \<in> set (mux a)"
      using run_Inr_recovering [of cs ?new a] by simp_all
    with b show ?thesis
      by (simp add: reached_installed)
  qed
  note am = allowedMethods_reached [OF b assms(4)]
  from b ne have i: "path \<in> set (mux a)"
    by (rule reached_stored_installed)
  from am(2) ne have "ks \<noteq> []" by auto
  moreover from am(2) have "'''' \<notin> set ks"
    using registered_canonical canonical_plain by blast
  ultimately have "allowedMethods a path ks \<noteq> ''''"
    unfolding am(1) by (simp add: join_comma_space_empty_iff)
  moreover from b have "dom (pMH a path) = set (registered (returned cs ?new) path)"
    by (simp add: reached_def)
  with ne have "dom (pMH a path) \<noteq> {}"
    by simp
  ultimately show ?thesis
    using i assms(3) by (simp add: ServeHTTP_def dispatch_miss)
qed

theorem allow_header_nonempty_witness:
  "\<exists>a y. a = run_recovering [CallPost ''/foo'' (stringHandler ''baz'') [None],
                             CallGet ''/foo'' (stringHandler ''bar'') []]
               (NewApplication NewServeMux) \<and>
     range_order (pMH a ''/foo'') [''GET''] \<and>
     pMH a ''/foo'' ''POST'' = None \<and>
     allowedMethods a ''/foo'' [''GET''] \<noteq> '''' \<and>
     ServeHTTP a ''/foo'' [''GET''] (fresh ''POST'') = Inr y \<and>
     wHeader y ''Allow'' = Some ''GET''"
proof -
  let ?new = "NewApplication NewServeMux"
  let ?cs = "[CallPost ''/foo'' (stringHandler ''baz'') [None],
              CallGet ''/foo'' (stringHandler ''bar'') []]"
  define a where "a = run_recovering ?cs ?new"
  have t: "pMH a ''/foo'' = [''GET'' \<mapsto> stringHandler ''bar'']"
    by (simp add: a_def Post_def Get_def handle_def middleware_def applyMiddleware_def
        NewApplication_def Let_def pMH_def MethodGet_def)
  have rt: "returned ?cs ?new = [CallGet ''/foo'' (stringHandler ''bar'') []]"
    by (simp add: Post_def Get_def handle_def middleware_def applyMiddleware_def
        NewApplication_def Let_def)
  have s: "registered (returned ?cs ?new) ''/foo'' \<noteq> [] \<or>
      run ?cs ?new = Inr a \<and> ''/foo'' \<in> set (mux a)"
    unfolding rt by (simp add: registered_def List.map_filter_def MethodGet_def)
  have n: "pMH a ''/foo'' (reqMethod (fresh ''POST'')) = None"
    unfolding t by (simp add: fresh_def)
  have o: "range_order (pMH a ''/foo'') [''GET'']"
    unfolding t by (simp add: range_order_def)
  note c = allow_header_nonempty [OF a_def s n o]
  have v: "allowedMethods a ''/foo'' [''GET''] = ''GET''"
    by (simp add: allowedMethods_def)
  let ?y = "http_Error ''Method Not Allowed'' StatusMethodNotAllowed
              (Header_Set ''Allow'' ''GET'' (fresh ''POST''))"
  from c have f1: "ServeHTTP a ''/foo'' [''GET''] (fresh ''POST'') = Inr ?y"
    unfolding v by (rule conjunct1)
  have f2: "wHeader ?y ''Allow'' = Some ''GET''"
    by (simp add: http_Error_fresh fresh_def)
  from c have f3: "allowedMethods a ''/foo'' [''GET''] \<noteq> ''''"
    by (rule conjunct2 [THEN conjunct1])
  from n have f4: "pMH a ''/foo'' ''POST'' = None"
    by (simp add: fresh_def)
  show ?thesis
    by (rule exI [of _ a], rule exI [of _ ?y], intro conjI) (fact a_def o f1 f2 f3 f4)+
qed

text \<open>
  Claim C2. In a router built by calls of the public API, take a path with at least one
  registered method and a request, nothing of whose response is written yet, with a
  method not registered for that path. The response then has status 405, the header
  \<open>Allow\<close> whose value is the comma-and-space join of the methods registered for the path
  (each once, in the order \<open>ks\<close> the loop happened to visit them), and the body
  \<^verbatim>\<open>Method Not Allowed\<close> followed by one newline.
\<close>

theorem method_not_allowed_response:
  assumes "run cs (NewApplication NewServeMux) = Inr a"
    and "registered cs path \<noteq> []"
    and "reqMethod x \<notin> set (registered cs path)"
    and "range_order (pMH a path) ks"
    and "wStatus x = None" and "wBody x = ''''"
  shows "\<exists>y. ServeHTTP a path ks x = Inr y \<and>
           wStatus y = Some 405 \<and>
           wHeader y ''Allow'' = Some (join_comma_space ks) \<and>
           listed (join_comma_space ks) = ks \<and>
           distinct ks \<and> set ks = set (registered cs path) \<and>
           wBody y = ''Method Not Allowed'' @ [CHR 0x0A]"
proof -
  note b = built_reachable [OF assms(1)]
  note am = allowedMethods_built [OF b assms(4)]
  from b assms(2) have i: "path \<in> set (mux a)"
    by (simp add: built_installed)
  from b assms(3) have n: "pMH a path (reqMethod x) = None"
    by (simp add: built_lookup)
  let ?y = "http_Error ''Method Not Allowed'' StatusMethodNotAllowed
              (Header_Set ''Allow'' (join_comma_space ks) x)"
  from i n have "ServeHTTP a path ks x = Inr ?y"
    by (simp add: ServeHTTP_def dispatch_miss am(1))
  moreover from assms(5) have "wStatus ?y = Some 405"
    by (simp add: http_Error_fresh StatusMethodNotAllowed_def)
  moreover from assms(5) have "wHeader ?y ''Allow'' = Some (join_comma_space ks)"
    by (simp add: http_Error_fresh)
  moreover from assms(5,6) have "wBody ?y = ''Method Not Allowed'' @ [CHR 0x0A]"
    by (simp add: http_Error_fresh)
  moreover from am(1,2) have "listed (join_comma_space ks) = ks" by simp
  ultimately show ?thesis using am(3,4) by blast
qed

theorem method_not_allowed_response_witness:
  "\<exists>a y. run [CallGet ''/foo'' (stringHandler ''bar'') [], CallPost ''/foo'' (stringHandler ''baz'') []]
           (NewApplication NewServeMux) = Inr a \<and>
     range_order (pMH a ''/foo'') [''POST'', ''GET''] \<and>
     ServeHTTP a ''/foo'' [''POST'', ''GET''] (fresh ''DELETE'') = Inr y \<and>
     wStatus y = Some 405 \<and> wHeader y ''Allow'' = Some ''POST, GET'' \<and>
     wBody y = ''Method Not Allowed'' @ [CHR 0x0A]"
proof -
  let ?cs = "[CallGet ''/foo'' (stringHandler ''bar'') [], CallPost ''/foo'' (stringHandler ''baz'') []]"
  have "\<exists>a. run ?cs (NewApplication NewServeMux) = Inr a"
    by (simp add: Get_def Post_def handle_def middleware_def applyMiddleware_def
        NewApplication_def Let_def)
  then obtain a where r: "run ?cs (NewApplication NewServeMux) = Inr a" ..
  then have t: "pMH a ''/foo'' = [''GET'' \<mapsto> stringHandler ''bar'', ''POST'' \<mapsto> stringHandler ''baz'']"
    by (auto simp: Get_def Post_def handle_def middleware_def applyMiddleware_def
        NewApplication_def Let_def pMH_def MethodGet_def MethodPost_def)
  have rc: "registered ?cs ''/foo'' = [''GET'', ''POST'']"
    by (simp add: registered_def List.map_filter_def MethodGet_def MethodPost_def)
  have ne: "registered ?cs ''/foo'' \<noteq> []" unfolding rc by simp
  have nr: "reqMethod (fresh ''DELETE'') \<notin> set (registered ?cs ''/foo'')"
    unfolding rc by (simp add: fresh_def)
  have o: "range_order (pMH a ''/foo'') [''POST'', ''GET'']"
    unfolding t by (auto simp: range_order_def)
  have f: "wStatus (fresh ''DELETE'') = None" "wBody (fresh ''DELETE'') = ''''"
    by (simp_all add: fresh_def)
  from method_not_allowed_response [OF r ne nr o f] obtain y where
    "ServeHTTP a ''/foo'' [''POST'', ''GET''] (fresh ''DELETE'') = Inr y"
    "wStatus y = Some 405" "wHeader y ''Allow'' = Some (join_comma_space [''POST'', ''GET''])"
    "wBody y = ''Method Not Allowed'' @ [CHR 0x0A]"
    by blast
  then show ?thesis using r o by auto
qed

section \<open>Method names\<close>

lemma entry_points_canonical:
  "Get p h ms a = handle ''GET'' p h ms a"
  "Post p h ms a = handle ''POST'' p h ms a"
  "Put p h ms a = handle ''PUT'' p h ms a"
  "Patch p h ms a = handle ''PATCH'' p h ms a"
  "Delete p h ms a = handle ''DELETE'' p h ms a"
  by (simp_all add: Get_def Post_def Put_def Patch_def Delete_def
      MethodGet_def MethodPost_def MethodPut_def MethodPatch_def MethodDelete_def)

text \<open>
  Claim C10. The five entry points call \<open>handle\<close> with the strings \<^verbatim>\<open>GET\<close>, \<^verbatim>\<open>POST\<close>,
  \<^verbatim>\<open>PUT\<close>, \<^verbatim>\<open>PATCH\<close> and \<^verbatim>\<open>DELETE\<close>, so in a router built by calls of the public
  API every registered method is one of these. The lookup at dispatch compares the
  request's method with the stored names as strings: a request whose method differs from
  a registered one, but only in the case of its letters, finds no entry and receives the
  405 response.
\<close>

theorem method_lookup_case_sensitive:
  assumes "run cs (NewApplication NewServeMux) = Inr a"
    and "m \<in> set (registered cs path)"
    and "same_up_to_case (reqMethod x) m" and "reqMethod x \<noteq> m"
  shows "Get p h ms b = handle ''GET'' p h ms b \<and>
         Post p h ms b = handle ''POST'' p h ms b \<and>
         Put p h ms b = handle ''PUT'' p h ms b \<and>
         Patch p h ms b = handle ''PATCH'' p h ms b \<and>
         Delete p h ms b = handle ''DELETE'' p h ms b \<and>
         m \<in> {''POST'', ''GET'', ''PUT'', ''PATCH'', ''DELETE''} \<and>
         pMH a path m \<noteq> None \<and>
         pMH a path (reqMethod x) = None \<and>
         ServeHTTP a path ks x =
           Inr (http_Error ''Method Not Allowed'' StatusMethodNotAllowed
                  (Header_Set ''Allow'' (allowedMethods a path ks) x))"
proof -
  note b = built_reachable [OF assms(1)]
  from assms(2) have c: "m \<in> {''POST'', ''GET'', ''PUT'', ''PATCH'', ''DELETE''}"
    by (rule registered_canonical)
  have n: "reqMethod x \<notin> set (registered cs path)"
  proof
    assume "reqMethod x \<in> set (registered cs path)"
    then have "map ascii_upper (reqMethod x) = reqMethod x"
      using registered_canonical canonical_plain by blast
    moreover from c have "map ascii_upper m = m"
      using canonical_plain by blast
    ultimately show False
      using assms(3,4) by (simp add: same_up_to_case_def)
  qed
  with b have miss: "pMH a path (reqMethod x) = None"
    by (simp add: built_lookup)
  from b assms(2) have hit: "pMH a path m \<noteq> None"
    by (simp add: built_lookup)
  from assms(2) have "registered cs path \<noteq> []" by auto
  with b have "path \<in> set (mux a)"
    by (simp add: built_installed)
  with miss have "ServeHTTP a path ks x =
      Inr (http_Error ''Method Not Allowed'' StatusMethodNotAllowed
             (Header_Set ''Allow'' (allowedMethods a path ks) x))"
    by (simp add: ServeHTTP_def dispatch_miss)
  with c hit miss show ?thesis
    by (simp only: entry_points_canonical simp_thms)
qed

theorem method_lookup_case_sensitive_witness:
  "\<exists>a y. run [CallGet ''/x'' (stringHandler ''ok'') []] (NewApplication NewServeMux) = Inr a \<and>
     same_up_to_case ''get'' ''GET'' \<and> ''get'' \<noteq> ''GET'' \<and>
     ServeHTTP a ''/x'' [''GET''] (fresh ''get'') = Inr y \<and>
     wStatus y = Some 405 \<and> wHeader y ''Allow'' = Some ''GET'' \<and> wBody y \<noteq> ''ok''"
proof -
  let ?cs = "[CallGet ''/x'' (stringHandler ''ok'') []]"
  have "\<exists>a. run ?cs (NewApplication NewServeMux) = Inr a"
    by (simp add: Get_def handle_def middleware_def applyMiddleware_def
        NewApplication_def Let_def)
  then obtain a where r: "run ?cs (NewApplication NewServeMux) = Inr a" ..
  have m: "''GET'' \<in> set (registered ?cs ''/x'')"
    by (simp add: registered_def List.map_filter_def MethodGet_def)
  have s: "same_up_to_case (reqMethod (fresh ''get'')) ''GET''"
    by (simp add: same_up_to_case_def ascii_upper_def fresh_def)
  have d: "reqMethod (fresh ''get'') \<noteq> ''GET''"
    by (simp add: fresh_def)
  note c = method_lookup_case_sensitive [OF r m s d, of _ _ _ _ "[''GET'']"]
  have v: "allowedMethods a ''/x'' [''GET''] = ''GET''"
    by (simp add: allowedMethods_def)
  from c have "ServeHTTP a ''/x'' [''GET''] (fresh ''get'') =
      Inr (http_Error ''Method Not Allowed'' StatusMethodNotAllowed
             (Header_Set ''Allow'' ''GET'' (fresh ''get'')))"
    unfolding v by simp
  moreover have "wStatus (http_Error ''Method Not Allowed'' StatusMethodNotAllowed
             (Header_Set ''Allow'' ''GET'' (fresh ''get''))) = Some 405"
    and "wHeader (http_Error ''Method Not Allowed'' StatusMethodNotAllowed
             (Header_Set ''Allow'' ''GET'' (fresh ''get''))) ''Allow'' = Some ''GET''"
    and "wBody (http_Error ''Method Not Allowed'' StatusMethodNotAllowed
             (Header_Set ''Allow'' ''GET'' (fresh ''get''))) \<noteq> ''ok''"
    by (simp_all add: http_Error_fresh fresh_def StatusMethodNotAllowed_def)
  moreover from s d have "same_up_to_case ''get'' ''GET''" "''get'' \<noteq> ''GET''"
    by (simp_all add: fresh_def)
  ultimately show ?thesis using r by blast
qed

end
